theory Spec2Isabelle
  imports Main
begin

section \<open>Data model\<close>

text \<open>
  The engine of \<^verbatim>\<open>chessington/engine/pieces.py\<close>. A piece is a Python object: its
  class (the kind), its \<^verbatim>\<open>player\<close> attribute, and its identity, which the board's reverse
  lookup compares. The identity is the field \<open>ident\<close>; two pieces are the same object iff
  they are equal as values. Rows and columns are Python integers.
\<close>

datatype player = WHITE | BLACK

datatype error = OutOfBoundsError | PieceNotFoundError

datatype square = Square (row: int) (col: int)

datatype piece_kind = Pawn | Knight | Bishop | Queen | King | Rook

datatype piece = Piece (ident: nat) (kind: piece_kind) (player: player)

type_synonym board = "square \<Rightarrow> piece option"

text \<open>
  A call either returns a value or raises; in both cases it leaves a board behind.
  The board is threaded through every call, so that what a call does to it is a
  statement about the model and not a convention.
\<close>

type_synonym 'a outcome = "(error + 'a) \<times> board"

section \<open>Squares and the board\<close>

text \<open>
  Modelled from the spec: \<^verbatim>\<open>chessington/engine/data.py\<close> (\<^verbatim>\<open>Square\<close>, \<^verbatim>\<open>Player\<close>) is not
  among the sources. Section 7: constructing a square outside [0,7] x [0,7] fails with
  an \<^verbatim>\<open>OutOfBoundsError\<close>; it neither clamps nor wraps.
\<close>

definition Square_at :: "int \<Rightarrow> int \<Rightarrow> error + square" where
  "Square_at r c =
     (if 0 \<le> r \<and> r \<le> 7 \<and> 0 \<le> c \<and> c \<le> 7 then Inr (Square r c) else Inl OutOfBoundsError)"

text \<open>
  Modelled from the spec: the grid that \<^verbatim>\<open>Board\<close> stores is not among the sources.
  Section 2: an 8 x 8 grid; these are its 64 squares, row by row.
\<close>

definition all_squares :: "square list" where
  "all_squares = concat (map (\<lambda>r. map (\<lambda>c. Square r c) [0..7]) [0..7])"

text \<open>
  Modelled from the spec: \<^verbatim>\<open>chessington/engine/board.py\<close> (\<^verbatim>\<open>Board\<close>) is not among the
  sources. Section 6: \<^verbatim>\<open>Board.empty()\<close> constructs a board with no pieces.
\<close>

definition Board_empty :: board where
  "Board_empty = (\<lambda>sq. None)"

text \<open>
  Modelled from the spec: \<^verbatim>\<open>Board.set_piece\<close> is not among the sources. Section 6: places
  a piece, overwriting any occupant.
\<close>

definition set_piece :: "square \<Rightarrow> piece option \<Rightarrow> board \<Rightarrow> board" where
  "set_piece sq p board = board(sq := p)"

text \<open>
  Modelled from the spec: \<^verbatim>\<open>Board.get_piece\<close> is not among the sources. Section 6:
  occupancy lookup, returning the optional piece of a square.
\<close>

definition get_piece :: "square \<Rightarrow> board \<Rightarrow> piece option \<times> board" where
  "get_piece sq board = (board sq, board)"

text \<open>
  Modelled from the spec: the scan behind \<^verbatim>\<open>Board.find_piece\<close> is not among the sources.
  Section 6: lookup by piece identity; these are the squares of the grid that hold the
  piece.
\<close>

definition occurrences :: "piece \<Rightarrow> board \<Rightarrow> square list" where
  "occurrences p board = filter (\<lambda>sq. board sq = Some p) all_squares"

text \<open>
  Modelled from the spec: \<^verbatim>\<open>Board.find_piece\<close> is not among the sources. Section 6:
  reverse lookup by piece identity, which fails if the piece is not present exactly
  once; section 7: for a piece absent from the board the failure is a
  \<^verbatim>\<open>PieceNotFoundError\<close>. The spec names no other error for the lookup, so the same
  error stands for a piece present more than once.
\<close>

definition find_piece :: "piece \<Rightarrow> board \<Rightarrow> square outcome" where
  "find_piece p board =
     (case occurrences p board of
        [sq] \<Rightarrow> (Inr sq, board)
      | _ \<Rightarrow> (Inl PieceNotFoundError, board))"

text \<open>
  Modelled from the spec: \<^verbatim>\<open>Board.move_piece\<close> is not among the sources. Section 6:
  relocates whatever occupies \<open>from_square\<close> to \<open>to_square\<close>, clearing \<open>from_square\<close> and
  overwriting \<open>to_square\<close>.
\<close>

definition move_piece :: "square \<Rightarrow> square \<Rightarrow> board \<Rightarrow> unit outcome" where
  "move_piece from_square to_square board =
     (let moving_piece = board from_square
      in (Inr (), set_piece to_square moving_piece (set_piece from_square None board)))"

section \<open>Pieces\<close>

subsection \<open>\<^verbatim>\<open>Piece.move_to\<close>\<close>

definition move_to :: "piece \<Rightarrow> square \<Rightarrow> board \<Rightarrow> unit outcome" where
  "move_to self new_square board =
     (case find_piece self board of
        (Inl e, board) \<Rightarrow> (Inl e, board)
      | (Inr current_square, board) \<Rightarrow> move_piece current_square new_square board)"

subsection \<open>\<^verbatim>\<open>Pawn.get_available_moves\<close>\<close>

definition Pawn_get_available_moves :: "piece \<Rightarrow> board \<Rightarrow> square list outcome" where
  "Pawn_get_available_moves self board =
     (case find_piece self board of
        (Inl e, board) \<Rightarrow> (Inl e, board)
      | (Inr current_square, board) \<Rightarrow>
          (let moves = [];
               direction = (if player self = WHITE then 1 else - 1);
               starting_row = (if player self = WHITE then 1 else 6)
           in case Square_at (row current_square + direction) (col current_square) of
                Inl e \<Rightarrow> (Inl e, board)
              | Inr one_forward \<Rightarrow>
                  (case get_piece one_forward board of
                     (Some occupant, board) \<Rightarrow> (Inr moves, board)
                   | (None, board) \<Rightarrow>
                       (let moves = moves @ [one_forward]
                        in if row current_square = starting_row
                           then (case Square_at (row current_square + 2 * direction)
                                        (col current_square) of
                                   Inl e \<Rightarrow> (Inl e, board)
                                 | Inr two_forward \<Rightarrow>
                                     (case get_piece two_forward board of
                                        (Some occupant, board) \<Rightarrow> (Inr moves, board)
                                      | (None, board) \<Rightarrow> (Inr (moves @ [two_forward]), board)))
                           else (Inr moves, board)))))"

subsection \<open>\<^verbatim>\<open>Knight.get_available_moves\<close> and \<^verbatim>\<open>King.get_available_moves\<close>\<close>

text \<open>
  The two methods have the same loop body and differ in the list of offsets only. The
  loop \<^verbatim>\<open>for dr, dc in jumps\<close> is the recursion over the list; \<open>moves\<close> is the
  accumulator.
\<close>

fun stepping_loop ::
  "piece \<Rightarrow> square \<Rightarrow> (int \<times> int) list \<Rightarrow> square list \<Rightarrow> board \<Rightarrow> square list outcome"
where
  "stepping_loop self current_square [] moves board = (Inr moves, board)"
| "stepping_loop self current_square ((dr, dc) # rest) moves board =
     (let new_row = row current_square + dr;
          new_col = col current_square + dc
      in if 0 \<le> new_row \<and> new_row < 8 \<and> 0 \<le> new_col \<and> new_col < 8
         then (case Square_at new_row new_col of
                 Inl e \<Rightarrow> (Inl e, board)
               | Inr target_square \<Rightarrow>
                   (case get_piece target_square board of
                      (None, board) \<Rightarrow>
                        stepping_loop self current_square rest (moves @ [target_square]) board
                    | (Some piece_at_target, board) \<Rightarrow>
                        if player piece_at_target \<noteq> player self
                        then stepping_loop self current_square rest (moves @ [target_square]) board
                        else stepping_loop self current_square rest moves board))
         else stepping_loop self current_square rest moves board)"

definition jumps :: "(int \<times> int) list" where
  "jumps = [(- 2, - 1), (- 2, 1), (- 1, - 2), (- 1, 2), (1, - 2), (1, 2), (2, - 1), (2, 1)]"

definition Knight_get_available_moves :: "piece \<Rightarrow> board \<Rightarrow> square list outcome" where
  "Knight_get_available_moves self board =
     (case find_piece self board of
        (Inl e, board) \<Rightarrow> (Inl e, board)
      | (Inr current_square, board) \<Rightarrow> stepping_loop self current_square jumps [] board)"

definition King_directions :: "(int \<times> int) list" where
  "King_directions =
     [(- 1, - 1), (- 1, 0), (- 1, 1), (0, - 1), (0, 1), (1, - 1), (1, 0), (1, 1)]"

definition King_get_available_moves :: "piece \<Rightarrow> board \<Rightarrow> square list outcome" where
  "King_get_available_moves self board =
     (case find_piece self board of
        (Inl e, board) \<Rightarrow> (Inl e, board)
      | (Inr current_square, board) \<Rightarrow>
          stepping_loop self current_square King_directions [] board)"

subsection \<open>\<^verbatim>\<open>Bishop\<close>, \<^verbatim>\<open>Rook\<close> and \<^verbatim>\<open>Queen\<close>\<close>

text \<open>
  The three methods have the same two loops and differ in the list of directions only.
  The inner loop is \<^verbatim>\<open>while True\<close>: nothing in its text bounds it, so it is a partial
  function, and \<open>None\<close> stands for a walk that never ends. \<open>slide\<close> is one walk, entered
  with the position reached so far; \<^verbatim>\<open>break\<close> is its return.
\<close>

partial_function (option) slide ::
  "piece \<Rightarrow> int \<Rightarrow> int \<Rightarrow> int \<Rightarrow> int \<Rightarrow> square list \<Rightarrow> board \<Rightarrow> square list outcome option"
where
  "slide self dr dc new_row new_col moves board =
     (let new_row = new_row + dr;
          new_col = new_col + dc
      in if \<not> (0 \<le> new_row \<and> new_row < 8 \<and> 0 \<le> new_col \<and> new_col < 8)
         then Some (Inr moves, board)
         else (case Square_at new_row new_col of
                 Inl e \<Rightarrow> Some (Inl e, board)
               | Inr target_square \<Rightarrow>
                   (case get_piece target_square board of
                      (None, board) \<Rightarrow>
                        slide self dr dc new_row new_col (moves @ [target_square]) board
                    | (Some piece_at_target, board) \<Rightarrow>
                        if player piece_at_target \<noteq> player self
                        then Some (Inr (moves @ [target_square]), board)
                        else Some (Inr moves, board))))"

declare slide.simps [code]

fun sliding_loop ::
  "piece \<Rightarrow> square \<Rightarrow> (int \<times> int) list \<Rightarrow> square list \<Rightarrow> board \<Rightarrow> square list outcome option"
where
  "sliding_loop self current_square [] moves board = Some (Inr moves, board)"
| "sliding_loop self current_square ((dr, dc) # rest) moves board =
     (case slide self dr dc (row current_square) (col current_square) moves board of
        None \<Rightarrow> None
      | Some (Inl e, board) \<Rightarrow> Some (Inl e, board)
      | Some (Inr moves, board) \<Rightarrow> sliding_loop self current_square rest moves board)"

definition Bishop_directions :: "(int \<times> int) list" where
  "Bishop_directions = [(- 1, - 1), (- 1, 1), (1, - 1), (1, 1)]"

definition Rook_directions :: "(int \<times> int) list" where
  "Rook_directions = [(- 1, 0), (1, 0), (0, - 1), (0, 1)]"

definition Queen_directions :: "(int \<times> int) list" where
  "Queen_directions =
     [(- 1, 0), (1, 0), (0, - 1), (0, 1), (- 1, - 1), (- 1, 1), (1, - 1), (1, 1)]"

definition sliding_moves ::
  "(int \<times> int) list \<Rightarrow> piece \<Rightarrow> board \<Rightarrow> square list outcome option" where
  "sliding_moves directions self board =
     (case find_piece self board of
        (Inl e, board) \<Rightarrow> Some (Inl e, board)
      | (Inr current_square, board) \<Rightarrow> sliding_loop self current_square directions [] board)"

definition Bishop_get_available_moves :: "piece \<Rightarrow> board \<Rightarrow> square list outcome option" where
  "Bishop_get_available_moves = sliding_moves Bishop_directions"

definition Rook_get_available_moves :: "piece \<Rightarrow> board \<Rightarrow> square list outcome option" where
  "Rook_get_available_moves = sliding_moves Rook_directions"

definition Queen_get_available_moves :: "piece \<Rightarrow> board \<Rightarrow> square list outcome option" where
  "Queen_get_available_moves = sliding_moves Queen_directions"

subsection \<open>Dispatch on the class of the piece\<close>

definition get_available_moves :: "piece \<Rightarrow> board \<Rightarrow> square list outcome option" where
  "get_available_moves self board =
     (case kind self of
        Pawn \<Rightarrow> Some (Pawn_get_available_moves self board)
      | Knight \<Rightarrow> Some (Knight_get_available_moves self board)
      | Bishop \<Rightarrow> Bishop_get_available_moves self board
      | Queen \<Rightarrow> Queen_get_available_moves self board
      | King \<Rightarrow> Some (King_get_available_moves self board)
      | Rook \<Rightarrow> Rook_get_available_moves self board)"

section \<open>Vocabulary of the properties\<close>

text \<open>A square of the 8 x 8 grid.\<close>

definition on_board :: "square \<Rightarrow> bool" where
  "on_board sq \<longleftrightarrow> 0 \<le> row sq \<and> row sq \<le> 7 \<and> 0 \<le> col sq \<and> col sq \<le> 7"

text \<open>The square \<open>k\<close> steps of the vector \<open>d\<close> away from \<open>s\<close>.\<close>

definition offset :: "square \<Rightarrow> int \<times> int \<Rightarrow> nat \<Rightarrow> square" where
  "offset s d k = Square (row s + int k * fst d) (col s + int k * snd d)"

text \<open>The square is unoccupied, or its occupant belongs to the other player.\<close>

definition free_or_foe :: "piece \<Rightarrow> board \<Rightarrow> square \<Rightarrow> bool" where
  "free_or_foe self board t =
     (case board t of None \<Rightarrow> True | Some q \<Rightarrow> player q \<noteq> player self)"

text \<open>
  The walk from \<open>s\<close> along \<open>d\<close> gets as far as its \<open>k\<close>-th square and emits it: the
  squares 1 to \<open>k\<close> of the walk are on the grid, the squares before the \<open>k\<close>-th are
  unoccupied, and the \<open>k\<close>-th is unoccupied or holds a piece of the other player.
\<close>

definition ray_reaches :: "piece \<Rightarrow> board \<Rightarrow> square \<Rightarrow> int \<times> int \<Rightarrow> nat \<Rightarrow> bool" where
  "ray_reaches self board s d k \<longleftrightarrow>
     1 \<le> k \<and> (\<forall>j\<in>{1..k}. on_board (offset s d j)) \<and>
     (\<forall>j\<in>{1..<k}. board (offset s d j) = None) \<and> free_or_foe self board (offset s d k)"

text \<open>A vector of the eight compass directions.\<close>

definition unit_direction :: "int \<times> int \<Rightarrow> bool" where
  "unit_direction d \<longleftrightarrow> fst d \<in> {- 1, 0, 1} \<and> snd d \<in> {- 1, 0, 1} \<and> d \<noteq> (0, 0)"

text \<open>
  The number of squares between a position and the edge of the grid that the vector
  points to: the measure of the walk.
\<close>

definition steps_left :: "int \<Rightarrow> int \<Rightarrow> int \<Rightarrow> int \<Rightarrow> nat" where
  "steps_left dr dc r c =
     nat (if dr = 1 then 7 - r else if dr = - 1 then r else if dc = 1 then 7 - c else c)"

text \<open>The board of the tests: \<^verbatim>\<open>Board.empty()\<close>, then one \<^verbatim>\<open>set_piece\<close>.\<close>

definition lone :: "piece \<Rightarrow> square \<Rightarrow> board" where
  "lone p sq = set_piece sq (Some p) Board_empty"

text \<open>
  What one direction contributes to the result of a sliding piece: the squares 1 to \<open>n\<close>
  of the walk, nearest first, where \<open>n\<close> is such that the walk reaches its \<open>k\<close>-th square
  exactly for \<open>k\<close> from 1 to \<open>n\<close>.
\<close>

definition walk_segment :: "piece \<Rightarrow> board \<Rightarrow> square \<Rightarrow> int \<times> int \<Rightarrow> square list \<Rightarrow> bool" where
  "walk_segment self board s d segment \<longleftrightarrow>
     (\<exists>n. segment = map (offset s d) [1..<Suc n] \<and>
          (\<forall>k. ray_reaches self board s d k \<longleftrightarrow> 1 \<le> k \<and> k \<le> n))"

text \<open>
  The piece \<open>p\<close> on (4, 4), a black pawn on (6, 6) and a white pawn on (2, 2).
\<close>

definition example_board :: "piece \<Rightarrow> board" where
  "example_board p =
     set_piece (Square 2 2) (Some (Piece 2 Pawn WHITE))
       (set_piece (Square 6 6) (Some (Piece 1 Pawn BLACK)) (lone p (Square 4 4)))"

text \<open>
  A knight \<open>p\<close> on (4, 4), a black pawn on (6, 5) and a white pawn on (2, 3), both a
  knight's jump away.
\<close>

definition knight_board :: "piece \<Rightarrow> board" where
  "knight_board p =
     set_piece (Square 2 3) (Some (Piece 2 Pawn WHITE))
       (set_piece (Square 6 5) (Some (Piece 1 Pawn BLACK)) (lone p (Square 4 4)))"

section \<open>The board\<close>

lemma all_squares_iff:
  "sq \<in> set all_squares \<longleftrightarrow> 0 \<le> row sq \<and> row sq \<le> 7 \<and> 0 \<le> col sq \<and> col sq \<le> 7"
  by (cases sq) (auto simp: all_squares_def image_iff)

lemma find_piece_located:
  "occurrences p board = [s] \<Longrightarrow> find_piece p board = (Inr s, board)"
  by (simp add: find_piece_def)

lemma find_piece_absent:
  "occurrences p board = [] \<Longrightarrow> find_piece p board = (Inl PieceNotFoundError, board)"
  by (simp add: find_piece_def)

lemma find_piece_cases:
  "(\<exists>s. occurrences p board = [s] \<and> find_piece p board = (Inr s, board)) \<or>
   find_piece p board = (Inl PieceNotFoundError, board)"
  by (simp add: find_piece_def split: list.split)

lemma occurrences_single:
  assumes "occurrences p board = [s]"
  shows "board s = Some p" and "0 \<le> row s" and "row s \<le> 7" and "0 \<le> col s" and "col s \<le> 7"
proof -
  have "s \<in> set (occurrences p board)" using assms by simp
  then have a: "s \<in> set all_squares" and b: "board s = Some p"
    by (simp_all add: occurrences_def)
  show "board s = Some p" by (rule b)
  show "0 \<le> row s" and "row s \<le> 7" and "0 \<le> col s" and "col s \<le> 7"
    using a by (simp_all add: all_squares_iff)
qed

lemma occurrences_absent_iff:
  "occurrences p board = [] \<longleftrightarrow> (\<forall>sq\<in>set all_squares. board sq \<noteq> Some p)"
  by (simp add: occurrences_def filter_empty_conv)

lemma distinct_all_squares: "distinct all_squares"
  by (simp add: all_squares_def upto.simps)

lemma filter_eq_single:
  "distinct xs \<Longrightarrow> x \<in> set xs \<Longrightarrow> filter (\<lambda>y. y = x) xs = [x]"
proof (induction xs)
  case Nil
  then show ?case by simp
next
  case (Cons a xs)
  show ?case
  proof (cases "a = x")
    case True
    then have "x \<notin> set xs" using Cons.prems by simp
    then have "filter (\<lambda>y. y = x) xs = []" by (auto simp: filter_empty_conv)
    with True show ?thesis by simp
  next
    case False
    then show ?thesis using Cons by simp
  qed
qed

text \<open>A piece put on a square of the grid of a board that does not hold it is found there.\<close>

lemma occurrences_placed:
  assumes "on_board s" and "occurrences p board = []"
  shows "occurrences p (board(s := Some p)) = [s]"
proof -
  have s: "s \<in> set all_squares" using assms(1) by (simp add: all_squares_iff on_board_def)
  have "\<And>sq. sq \<in> set all_squares \<Longrightarrow> ((board(s := Some p)) sq = Some p) = (sq = s)"
    using assms(2) by (auto simp: occurrences_absent_iff)
  then have "occurrences p (board(s := Some p)) = filter (\<lambda>y. y = s) all_squares"
    unfolding occurrences_def by (intro filter_cong) simp_all
  then show ?thesis using filter_eq_single [OF distinct_all_squares s] by simp
qed

lemma occurrences_lone: "on_board s \<Longrightarrow> occurrences p (lone p s) = [s]"
  unfolding lone_def set_piece_def
  by (rule occurrences_placed) (simp_all add: occurrences_absent_iff Board_empty_def)

lemmas gam_defs = get_available_moves_def Pawn_get_available_moves_def
  Knight_get_available_moves_def King_get_available_moves_def
  Bishop_get_available_moves_def Rook_get_available_moves_def
  Queen_get_available_moves_def sliding_moves_def

lemmas lone_defs = lone_def set_piece_def Board_empty_def

lemma lone_at: "lone p s t = (if t = s then Some p else None)"
  by (simp add: lone_def set_piece_def Board_empty_def)

section \<open>The walk of a sliding piece\<close>

lemma offset_Suc: "offset s d (Suc k) = offset (offset s d 1) d k"
  by (simp add: offset_def algebra_simps)

lemma ball_shift1: "(\<forall>j\<in>{1..Suc k}. P j) \<longleftrightarrow> P 1 \<and> (\<forall>j\<in>{1..k}. P (Suc j))"
proof
  assume a: "\<forall>j\<in>{1..Suc k}. P j"
  show "P 1 \<and> (\<forall>j\<in>{1..k}. P (Suc j))" using a by auto
next
  assume a: "P 1 \<and> (\<forall>j\<in>{1..k}. P (Suc j))"
  show "\<forall>j\<in>{1..Suc k}. P j"
  proof
    fix j assume "j \<in> {1..Suc k}"
    then show "P j" using a by (cases j) (auto simp: le_Suc_eq)
  qed
qed

lemma ball_shift2:
  "(\<forall>j\<in>{1..<Suc k}. P j) \<longleftrightarrow> k = 0 \<or> P 1 \<and> (\<forall>j\<in>{1..<k}. P (Suc j))"
proof (cases k)
  case 0 then show ?thesis by simp
next
  case (Suc n)
  have "{1..<Suc k} = {1..k}" by auto
  moreover have "{1..<k} = {1..n}" using Suc by auto
  ultimately show ?thesis using ball_shift1 [of n P] Suc by simp
qed

lemma ray_reaches_0: "\<not> ray_reaches self board s d 0"
  by (simp add: ray_reaches_def)

lemma ray_reaches_one:
  "ray_reaches self board s d (Suc 0) \<longleftrightarrow>
     on_board (offset s d 1) \<and> free_or_foe self board (offset s d 1)"
  by (simp add: ray_reaches_def)

lemma ray_reaches_Suc:
  "ray_reaches self board s d (Suc (Suc k)) \<longleftrightarrow>
     on_board (offset s d 1) \<and> board (offset s d 1) = None \<and>
     ray_reaches self board (offset s d 1) d (Suc k)"
  unfolding ray_reaches_def ball_shift1 [of "Suc k"] ball_shift2 [of "Suc k"] offset_Suc
  by auto

text \<open>What the first square of a walk decides.\<close>

lemma walk_segment_blocked:
  assumes "\<not> (on_board (offset s d 1) \<and> board (offset s d 1) = None)"
  shows "walk_segment self board s d
           (if on_board (offset s d 1) \<and> free_or_foe self board (offset s d 1)
            then [offset s d 1] else [])"
proof -
  have later: "\<And>k. \<not> ray_reaches self board s d (Suc (Suc k))"
    using assms by (simp add: ray_reaches_Suc)
  show ?thesis
  proof (cases "on_board (offset s d 1) \<and> free_or_foe self board (offset s d 1)")
    case True
    have "\<forall>k. ray_reaches self board s d k \<longleftrightarrow> 1 \<le> k \<and> k \<le> 1"
    proof
      fix k
      show "ray_reaches self board s d k \<longleftrightarrow> 1 \<le> k \<and> k \<le> 1"
      proof (cases k)
        case 0 then show ?thesis by (simp add: ray_reaches_0)
      next
        case (Suc j)
        then show ?thesis using True later by (cases j) (simp_all add: ray_reaches_one)
      qed
    qed
    moreover have "[offset s d 1] = map (offset s d) [1..<Suc 1]" by simp
    ultimately show ?thesis using True unfolding walk_segment_def by (metis (full_types))
  next
    case False
    have "\<forall>k. ray_reaches self board s d k \<longleftrightarrow> 1 \<le> k \<and> k \<le> 0"
    proof
      fix k
      show "ray_reaches self board s d k \<longleftrightarrow> 1 \<le> k \<and> k \<le> 0"
      proof (cases k)
        case 0 then show ?thesis by (simp add: ray_reaches_0)
      next
        case (Suc j)
        then show ?thesis using False later by (cases j) (simp_all add: ray_reaches_one)
      qed
    qed
    moreover have "[] = map (offset s d) [1..<Suc 0]" by simp
    ultimately show ?thesis using False unfolding walk_segment_def by (metis (full_types))
  qed
qed

lemma walk_segment_free:
  assumes ob: "on_board (offset s d 1)" and fr: "board (offset s d 1) = None"
    and rest: "walk_segment self board (offset s d 1) d segment"
  shows "walk_segment self board s d (offset s d 1 # segment)"
proof -
  from rest obtain n where seg: "segment = map (offset (offset s d 1) d) [1..<Suc n]"
    and r: "\<And>k. ray_reaches self board (offset s d 1) d k \<longleftrightarrow> 1 \<le> k \<and> k \<le> n"
    unfolding walk_segment_def by blast
  have "[1..<Suc (Suc n)] = 1 # map Suc [1..<Suc n]"
    by (simp add: map_Suc_upt upt_conv_Cons del: upt_Suc)
  then have "map (offset s d) [1..<Suc (Suc n)]
      = offset s d 1 # map (\<lambda>k. offset s d (Suc k)) [1..<Suc n]"
    by (simp add: comp_def del: upt_Suc)
  moreover have "(\<lambda>k. offset s d (Suc k)) = offset (offset s d 1) d"
    by (rule ext) (rule offset_Suc)
  ultimately have "map (offset s d) [1..<Suc (Suc n)] = offset s d 1 # segment"
    by (simp only: seg)
  moreover have "\<forall>k. ray_reaches self board s d k \<longleftrightarrow> 1 \<le> k \<and> k \<le> Suc n"
  proof
    fix k
    show "ray_reaches self board s d k \<longleftrightarrow> 1 \<le> k \<and> k \<le> Suc n"
    proof (cases k)
      case 0 then show ?thesis by (simp add: ray_reaches_0)
    next
      case (Suc j)
      show ?thesis
      proof (cases j)
        case 0
        with Suc show ?thesis using ob fr by (simp add: ray_reaches_one free_or_foe_def)
      next
        case (Suc i)
        with \<open>k = Suc j\<close> show ?thesis using ob fr r [of "Suc i"] by (simp add: ray_reaches_Suc)
      qed
    qed
  qed
  ultimately show ?thesis unfolding walk_segment_def by metis
qed

lemma steps_left_less:
  assumes "unit_direction (dr, dc)"
    and "0 \<le> r + dr" "r + dr < 8" "0 \<le> c + dc" "c + dc < 8"
  shows "steps_left dr dc (r + dr) (c + dc) < steps_left dr dc r c"
  using assms by (auto simp: steps_left_def unit_direction_def)

lemma slide_spec:
  assumes u: "unit_direction (dr, dc)"
  shows "\<exists>segment. slide self dr dc r c moves board = Some (Inr (moves @ segment), board) \<and>
           walk_segment self board (Square r c) (dr, dc) segment"
proof (induction "steps_left dr dc r c" arbitrary: r c moves rule: less_induct)
  case less
  let ?t = "Square (r + dr) (c + dc)"
  have t: "offset (Square r c) (dr, dc) 1 = ?t" by (simp add: offset_def)
  show ?case
  proof (cases "0 \<le> r + dr \<and> r + dr < 8 \<and> 0 \<le> c + dc \<and> c + dc < 8")
    case False
    then have "slide self dr dc r c moves board = Some (Inr (moves @ []), board)"
      by (subst slide.simps) (simp add: Let_def)
    moreover have nb: "\<not> on_board ?t" using False by (auto simp: on_board_def)
    have "walk_segment self board (Square r c) (dr, dc) []"
      using walk_segment_blocked [of "Square r c" "(dr, dc)" board self] nb
      unfolding t by simp
    ultimately show ?thesis by blast
  next
    case True
    then have ob: "on_board ?t" by (simp add: on_board_def)
    have sq: "Square_at (r + dr) (c + dc) = Inr ?t" using True by (simp add: Square_at_def)
    show ?thesis
    proof (cases "board ?t")
      case None
      have m: "steps_left dr dc (r + dr) (c + dc) < steps_left dr dc r c"
        using steps_left_less [OF u] True by simp
      from less [OF m, of "moves @ [?t]"] obtain segment where
        s: "slide self dr dc (r + dr) (c + dc) (moves @ [?t]) board
              = Some (Inr ((moves @ [?t]) @ segment), board)"
        and w: "walk_segment self board ?t (dr, dc) segment"
        by blast
      have "slide self dr dc r c moves board = Some (Inr (moves @ (?t # segment)), board)"
        using True sq None s by (subst slide.simps) (simp add: Let_def get_piece_def)
      moreover have "walk_segment self board (Square r c) (dr, dc) (?t # segment)"
        using walk_segment_free [of "Square r c" "(dr, dc)" board self segment] ob None w
        unfolding t by simp
      ultimately show ?thesis by blast
    next
      case (Some q)
      have blocked: "walk_segment self board (Square r c) (dr, dc)
          (if player q \<noteq> player self then [?t] else [])"
        using walk_segment_blocked [of "Square r c" "(dr, dc)" board self] ob Some
        unfolding t by (simp add: free_or_foe_def)
      have "slide self dr dc r c moves board
          = Some (Inr (moves @ (if player q \<noteq> player self then [?t] else [])), board)"
        using True sq Some by (subst slide.simps) (simp add: Let_def get_piece_def)
      with blocked show ?thesis by blast
    qed
  qed
qed

lemma sliding_loop_spec:
  assumes "\<forall>d\<in>set ds. unit_direction d"
  shows "\<exists>segments. sliding_loop self s ds moves board = Some (Inr (moves @ concat segments), board) \<and>
           list_all2 (walk_segment self board s) ds segments"
  using assms
proof (induction ds arbitrary: moves)
  case Nil
  then show ?case by simp
next
  case (Cons d ds)
  obtain dr dc where d: "d = (dr, dc)" by (cases d)
  have u: "unit_direction (dr, dc)" using Cons.prems d by simp
  from slide_spec [OF u, of self "row s" "col s" moves board] obtain segment where
    s: "slide self dr dc (row s) (col s) moves board = Some (Inr (moves @ segment), board)"
    and w: "walk_segment self board s d segment"
    using d by auto
  from Cons.IH [of "moves @ segment"] Cons.prems obtain segments where
    l: "sliding_loop self s ds (moves @ segment) board
          = Some (Inr ((moves @ segment) @ concat segments), board)"
    and ws: "list_all2 (walk_segment self board s) ds segments"
    by auto
  have "sliding_loop self s (d # ds) moves board
      = Some (Inr (moves @ concat (segment # segments)), board)"
    using s l by (simp add: d)
  moreover have "list_all2 (walk_segment self board s) (d # ds) (segment # segments)"
    using w ws by simp
  ultimately show ?case by blast
qed

lemma unit_directions:
  "\<forall>d\<in>set Bishop_directions. unit_direction d"
  "\<forall>d\<in>set Rook_directions. unit_direction d"
  "\<forall>d\<in>set Queen_directions. unit_direction d"
  by (simp_all add: Bishop_directions_def Rook_directions_def Queen_directions_def
      unit_direction_def)

lemma sliding_moves_spec:
  assumes "\<forall>d\<in>set ds. unit_direction d" and "occurrences self board = [s]"
  shows "\<exists>segments. sliding_moves ds self board = Some (Inr (concat segments), board) \<and>
           list_all2 (walk_segment self board s) ds segments"
  using sliding_loop_spec [OF assms(1), of self s "[]" board]
  by (simp add: sliding_moves_def find_piece_located [OF assms(2)])

lemma walk_segment_set:
  assumes "walk_segment self board s d segment"
  shows "t \<in> set segment \<longleftrightarrow> (\<exists>k. t = offset s d k \<and> ray_reaches self board s d k)"
proof -
  from assms obtain n where seg: "segment = map (offset s d) [1..<Suc n]"
    and r: "\<And>k. ray_reaches self board s d k \<longleftrightarrow> 1 \<le> k \<and> k \<le> n"
    unfolding walk_segment_def by blast
  have "t \<in> set segment \<longleftrightarrow> (\<exists>k. 1 \<le> k \<and> k \<le> n \<and> t = offset s d k)"
    unfolding seg by (auto simp: image_iff less_Suc_eq_le)
  then show ?thesis using r by blast
qed

lemma segments_set:
  assumes "list_all2 (walk_segment self board s) ds segments"
  shows "t \<in> set (concat segments) \<longleftrightarrow>
           (\<exists>d\<in>set ds. \<exists>k. t = offset s d k \<and> ray_reaches self board s d k)"
  using assms
proof (induction ds segments rule: list_all2_induct)
  case Nil
  then show ?case by simp
next
  case (Cons d ds segment segments)
  then show ?case using walk_segment_set [of self board s d segment t] by auto
qed

lemma walk_segment_unique:
  assumes "walk_segment self board s d a" and "walk_segment self board s d b"
  shows "a = b"
proof -
  from assms(1) obtain n where a: "a = map (offset s d) [1..<Suc n]"
    and rn: "\<And>k. ray_reaches self board s d k \<longleftrightarrow> 1 \<le> k \<and> k \<le> n"
    unfolding walk_segment_def by blast
  from assms(2) obtain m where b: "b = map (offset s d) [1..<Suc m]"
    and rm: "\<And>k. ray_reaches self board s d k \<longleftrightarrow> 1 \<le> k \<and> k \<le> m"
    unfolding walk_segment_def by blast
  have "\<And>k. (1 \<le> k \<and> k \<le> n) = (1 \<le> k \<and> k \<le> m)" using rn rm by blast
  then have "n = m"
    by (metis One_nat_def Suc_le_mono le_0_eq le_refl nat_le_linear not0_implies_Suc order_antisym)
  with a b show ?thesis by simp
qed

lemma segments_unique:
  assumes "list_all2 (walk_segment self board s) ds xs"
    and "list_all2 (walk_segment self board s) ds ys"
  shows "xs = ys"
  using assms
proof (induction ds arbitrary: xs ys)
  case Nil
  then show ?case by simp
next
  case (Cons d ds)
  then show ?case by (auto simp: list_all2_Cons1 dest: walk_segment_unique)
qed

lemma offset_neq:
  assumes "unit_direction d" and "1 \<le> k"
  shows "offset s d k \<noteq> s"
proof -
  have "int k * fst d \<noteq> 0 \<or> int k * snd d \<noteq> 0"
    using assms by (cases d) (auto simp: unit_direction_def)
  then show ?thesis by (cases s) (auto simp: offset_def)
qed

text \<open>A walk reads neither the square it starts from nor anything of the piece but its player.\<close>

lemma ray_reaches_cong:
  assumes "unit_direction d" and "player p = player q"
  shows "ray_reaches p (board(s := x)) s d k \<longleftrightarrow> ray_reaches q board s d k"
proof -
  have e: "(board(s := x)) (offset s d j) = board (offset s d j)" if "1 \<le> j" for j
    using offset_neq [OF assms(1) that, of s] by simp
  have f: "free_or_foe p (board(s := x)) (offset s d k) = free_or_foe q board (offset s d k)"
    if "1 \<le> k"
    unfolding free_or_foe_def e [OF that] assms(2) ..
  have b: "(\<forall>j\<in>{1..<k}. (board(s := x)) (offset s d j) = None)
      = (\<forall>j\<in>{1..<k}. board (offset s d j) = None)"
    by (intro ball_cong refl) (simp only: e atLeastLessThan_iff)
  show ?thesis unfolding ray_reaches_def b using f by blast
qed

lemma walk_segment_cong:
  assumes "unit_direction d" and "player p = player q"
  shows "walk_segment p (board(s := x)) s d = walk_segment q board s d"
  unfolding walk_segment_def ray_reaches_cong [OF assms] ..

lemma sliding_not_self:
  assumes u: "\<forall>d\<in>set ds. unit_direction d"
    and l: "list_all2 (walk_segment self board s) ds segments"
  shows "s \<notin> set (concat segments)"
proof
  assume "s \<in> set (concat segments)"
  then obtain d k where d: "d \<in> set ds" and e: "s = offset s d k"
    and r: "ray_reaches self board s d k"
    unfolding segments_set [OF l] by blast
  from r have "1 \<le> k" by (simp add: ray_reaches_def)
  with offset_neq [of d k s] u d e show False by auto
qed

lemma segments_cong:
  assumes "list_all2 (walk_segment p (board(s := x)) s) ds segments"
    and "\<forall>d\<in>set ds. unit_direction d" and "player p = player q"
  shows "list_all2 (walk_segment q board s) ds segments"
  using assms(1,2)
proof (induction ds segments rule: list_all2_induct)
  case Nil
  then show ?case by simp
next
  case (Cons d ds segment segments)
  then show ?case using walk_segment_cong [of d p q board s x] assms(3) by simp
qed

lemma Queen_directions_split: "Queen_directions = Rook_directions @ Bishop_directions"
  by (simp add: Queen_directions_def Rook_directions_def Bishop_directions_def)

section \<open>The loop of a stepping piece\<close>

lemma stepping_loop_spec:
  "stepping_loop self s ds moves board =
     (Inr (moves @ concat (map (\<lambda>d. if on_board (offset s d 1) \<and>
                                        free_or_foe self board (offset s d 1)
                                     then [offset s d 1] else []) ds)), board)"
proof (induction ds arbitrary: moves)
  case Nil
  then show ?case by simp
next
  case (Cons d ds)
  obtain dr dc where d: "d = (dr, dc)" by (cases d)
  have t: "offset s (dr, dc) (Suc 0) = Square (row s + dr) (col s + dc)"
    by (simp add: offset_def)
  show ?case
  proof (cases "0 \<le> row s + dr \<and> row s + dr < 8 \<and> 0 \<le> col s + dc \<and> col s + dc < 8")
    case True
    then have ob: "on_board (Square (row s + dr) (col s + dc))" by (simp add: on_board_def)
    have sq: "Square_at (row s + dr) (col s + dc) = Inr (Square (row s + dr) (col s + dc))"
      using True by (simp add: Square_at_def)
    show ?thesis
      using True
      by (simp add: d t ob sq Cons.IH Let_def get_piece_def free_or_foe_def split: option.split)
  next
    case False
    then have nb: "\<not> on_board (Square (row s + dr) (col s + dc))"
      by (auto simp: on_board_def)
    show ?thesis
      unfolding d stepping_loop.simps Let_def if_not_P [OF False]
      using nb by (simp add: t Cons.IH)
  qed
qed

lemma stepping_moves_spec:
  assumes "occurrences self board = [s]"
  shows "Knight_get_available_moves self board =
     (Inr (concat (map (\<lambda>d. if on_board (offset s d 1) \<and>
                                free_or_foe self board (offset s d 1)
                             then [offset s d 1] else []) jumps)), board)"
    and "King_get_available_moves self board =
     (Inr (concat (map (\<lambda>d. if on_board (offset s d 1) \<and>
                                free_or_foe self board (offset s d 1)
                             then [offset s d 1] else []) King_directions)), board)"
  by (simp_all add: Knight_get_available_moves_def King_get_available_moves_def
      find_piece_located [OF assms] stepping_loop_spec)


lemma jumps_set:
  "set jumps = {(1, 2), (1, - 2), (- 1, 2), (- 1, - 2), (2, 1), (2, - 1), (- 2, 1), (- 2, - 1)}"
  unfolding jumps_def by (simp add: insert_commute)

lemma King_directions_set: "set King_directions = {- 1, 0, 1} \<times> {- 1, 0, 1} - {(0, 0)}"
  unfolding King_directions_def by (simp add: insert_commute insert_Diff_if)

lemma stepping_not_self:
  assumes "(0, 0) \<notin> set ds"
  shows "s \<notin> set (concat (map (\<lambda>d. if on_board (offset s d 1) \<and>
                                         free_or_foe self board (offset s d 1)
                                      then [offset s d 1] else []) ds))"
proof
  assume "s \<in> set (concat (map (\<lambda>d. if on_board (offset s d 1) \<and>
                                         free_or_foe self board (offset s d 1)
                                      then [offset s d 1] else []) ds))"
  then obtain d where d: "d \<in> set ds" and e: "offset s d 1 = s"
    by (auto split: if_splits)
  from d assms have "d \<noteq> (0, 0)" by auto
  then have "fst d \<noteq> 0 \<or> snd d \<noteq> 0" by (cases d) simp
  moreover from e have "row (offset s d 1) = row s" and "col (offset s d 1) = col s"
    by simp_all
  then have "fst d = 0" and "snd d = 0" by (simp_all add: offset_def)
  ultimately show False by simp
qed

section \<open>The pawn\<close>

text \<open>
  The method in closed form: it raises when the row ahead is off the grid, and returns
  the free square ahead, followed from the starting row by the free square two ahead.
\<close>

lemma Pawn_get_available_moves_spec:
  assumes o: "occurrences self board = [s]"
    and d: "direction = (if player self = WHITE then 1 else - 1)"
    and r: "starting_row = (if player self = WHITE then 1 else 6)"
  shows "Pawn_get_available_moves self board =
    (if 0 \<le> row s + direction \<and> row s + direction \<le> 7
     then (Inr (if board (Square (row s + direction) (col s)) = None
                then Square (row s + direction) (col s) #
                     (if row s = starting_row \<and>
                         board (Square (row s + 2 * direction) (col s)) = None
                      then [Square (row s + 2 * direction) (col s)] else [])
                else []), board)
     else (Inl OutOfBoundsError, board))"
proof -
  note c = occurrences_single(4,5) [OF o]
  show ?thesis
  proof (cases "player self = WHITE")
    case True
    then show ?thesis
      unfolding Pawn_get_available_moves_def find_piece_located [OF o] d r
      using c by (simp add: Let_def Square_at_def get_piece_def split: option.split)
  next
    case False
    then show ?thesis
      unfolding Pawn_get_available_moves_def find_piece_located [OF o] d r
      using c by (simp add: Let_def Square_at_def get_piece_def split: option.split)
  qed
qed

text \<open>
  The rule of a pawn whose row ahead is on the grid, with the direction +1 for WHITE and
  -1 for BLACK and the starting row 1 for WHITE and 6 for BLACK: the call returns, and a
  square is in the result iff it is the square one row ahead and that square is
  unoccupied, or it is the square two rows ahead, the square one row ahead is
  unoccupied, the pawn stands on its starting row and the square two rows ahead is
  unoccupied.
\<close>

lemma pawn_forward_rule:
  assumes "kind self = Pawn" and "occurrences self board = [s]"
    and "direction = (if player self = WHITE then 1 else - 1)"
    and "starting_row = (if player self = WHITE then 1 else 6)"
    and "0 \<le> row s + direction \<and> row s + direction \<le> 7"
  shows "\<exists>moves. get_available_moves self board = Some (Inr moves, board) \<and>
           (\<forall>t. t \<in> set moves \<longleftrightarrow>
              t = Square (row s + direction) (col s) \<and>
                board (Square (row s + direction) (col s)) = None \<or>
              t = Square (row s + 2 * direction) (col s) \<and>
                board (Square (row s + direction) (col s)) = None \<and>
                row s = starting_row \<and>
                board (Square (row s + 2 * direction) (col s)) = None)"
proof -
  have g: "get_available_moves self board = Some (Pawn_get_available_moves self board)"
    using assms(1) by (simp add: get_available_moves_def)
  show ?thesis
    unfolding g Pawn_get_available_moves_spec [OF assms(2,3,4)]
    using assms(5) by auto
qed

lemma pawn_forward_rule_example:
  "get_available_moves (Piece 0 Pawn WHITE) (lone (Piece 0 Pawn WHITE) (Square 1 4))
     = Some (Inr [Square 2 4, Square 3 4], lone (Piece 0 Pawn WHITE) (Square 1 4)) \<and>
   (\<exists>moves. get_available_moves (Piece 0 Pawn WHITE) (lone (Piece 0 Pawn WHITE) (Square 1 4))
       = Some (Inr moves, lone (Piece 0 Pawn WHITE) (Square 1 4)) \<and>
     Square 2 4 \<in> set moves \<and> Square 3 4 \<in> set moves \<and> Square 4 4 \<notin> set moves)"
proof -
  let ?p = "Piece 0 Pawn WHITE"
  let ?b = "lone ?p (Square 1 4)"
  have o: "occurrences ?p ?b = [Square 1 4]"
    by (rule occurrences_lone) (simp add: on_board_def)
  from pawn_forward_rule [of ?p ?b "Square 1 4" 1 1, OF _ o]
  obtain moves where m: "get_available_moves ?p ?b = Some (Inr moves, ?b)"
    and c: "\<forall>t. t \<in> set moves \<longleftrightarrow>
              t = Square (row (Square 1 4) + 1) (col (Square 1 4)) \<and>
                ?b (Square (row (Square 1 4) + 1) (col (Square 1 4))) = None \<or>
              t = Square (row (Square 1 4) + 2 * 1) (col (Square 1 4)) \<and>
                ?b (Square (row (Square 1 4) + 1) (col (Square 1 4))) = None \<and>
                row (Square 1 4) = 1 \<and>
                ?b (Square (row (Square 1 4) + 2 * 1) (col (Square 1 4))) = None"
    by auto
  have e: "get_available_moves ?p ?b = Some (Inr [Square 2 4, Square 3 4], ?b)"
    unfolding get_available_moves_def piece.sel piece_kind.case
      Pawn_get_available_moves_spec [OF o refl refl]
    by (simp add: lone_defs)
  have "Square 2 4 \<in> set moves \<and> Square 3 4 \<in> set moves \<and> Square 4 4 \<notin> set moves"
    using c by (simp add: lone_defs)
  with m e show ?thesis by blast
qed

text \<open>A pawn returns a list exactly when the row ahead of it is on the grid.\<close>

lemma pawn_returns_iff:
  assumes "kind self = Pawn" and "occurrences self board = [s]"
    and "direction = (if player self = WHITE then 1 else - 1)"
  shows "(\<exists>moves. get_available_moves self board = Some (Inr moves, board)) \<longleftrightarrow>
           0 \<le> row s + direction \<and> row s + direction \<le> 7"
    and "get_available_moves self board = Some (Inl OutOfBoundsError, board) \<longleftrightarrow>
           \<not> (0 \<le> row s + direction \<and> row s + direction \<le> 7)"
  using assms(1)
  by (simp_all add: get_available_moves_def
      Pawn_get_available_moves_spec [OF assms(2,3) refl])

section \<open>The board after a query\<close>

text \<open>Every query ends, by a return or by an error, and leaves the board it was given.\<close>

lemma get_available_moves_frame: "\<exists>r. get_available_moves self board = Some (r, board)"
proof -
  from find_piece_cases [of self board] consider
      s where "occurrences self board = [s]"
    | "find_piece self board = (Inl PieceNotFoundError, board)"
    by blast
  then show ?thesis
  proof cases
    case 1
    show ?thesis
    proof (cases "kind self")
      case Pawn
      then show ?thesis
        by (simp add: get_available_moves_def Pawn_get_available_moves_spec [OF 1 refl refl])
    next
      case Knight
      then show ?thesis by (simp add: get_available_moves_def stepping_moves_spec(1) [OF 1])
    next
      case King
      then show ?thesis by (simp add: get_available_moves_def stepping_moves_spec(2) [OF 1])
    next
      case Bishop
      then show ?thesis
        using sliding_moves_spec [OF unit_directions(1) 1]
        by (auto simp: get_available_moves_def Bishop_get_available_moves_def)
    next
      case Rook
      then show ?thesis
        using sliding_moves_spec [OF unit_directions(2) 1]
        by (auto simp: get_available_moves_def Rook_get_available_moves_def)
    next
      case Queen
      then show ?thesis
        using sliding_moves_spec [OF unit_directions(3) 1]
        by (auto simp: get_available_moves_def Queen_get_available_moves_def)
    qed
  next
    case 2
    then show ?thesis by (cases "kind self") (simp_all add: gam_defs)
  qed
qed

text \<open>Two calls in a row, the second on the board the first has left, have one outcome.\<close>

lemma get_available_moves_repeatable:
  "\<exists>r1 board1 r2 board2.
      get_available_moves self board = Some (r1, board1) \<and>
      get_available_moves self board1 = Some (r2, board2) \<and> r1 = r2"
  using get_available_moves_frame [of self board] by auto

text \<open>
  Every piece on the board but a pawn on its last row gets a list, and the same list
  from a second call.
\<close>

lemma located_piece_returns:
  assumes "occurrences self board = [s]"
    and "kind self = Pawn \<longrightarrow>
           0 \<le> row s + (if player self = WHITE then 1 else - 1) \<and>
           row s + (if player self = WHITE then 1 else - 1) \<le> 7"
  shows "\<exists>moves. get_available_moves self board = Some (Inr moves, board)"
proof (cases "kind self")
  case Pawn
  with assms(2) pawn_returns_iff(1) [OF Pawn assms(1) refl] show ?thesis by blast
next
  case Knight
  then show ?thesis by (simp add: get_available_moves_def stepping_moves_spec(1) [OF assms(1)])
next
  case King
  then show ?thesis by (simp add: get_available_moves_def stepping_moves_spec(2) [OF assms(1)])
next
  case Bishop
  then show ?thesis
    using sliding_moves_spec [OF unit_directions(1) assms(1)]
    by (auto simp: get_available_moves_def Bishop_get_available_moves_def)
next
  case Rook
  then show ?thesis
    using sliding_moves_spec [OF unit_directions(2) assms(1)]
    by (auto simp: get_available_moves_def Rook_get_available_moves_def)
next
  case Queen
  then show ?thesis
    using sliding_moves_spec [OF unit_directions(3) assms(1)]
    by (auto simp: get_available_moves_def Queen_get_available_moves_def)
qed

lemma located_piece_twice:
  assumes "occurrences self board = [s]"
    and "kind self = Pawn \<longrightarrow>
           0 \<le> row s + (if player self = WHITE then 1 else - 1) \<and>
           row s + (if player self = WHITE then 1 else - 1) \<le> 7"
  shows "\<exists>moves board1.
           get_available_moves self board = Some (Inr moves, board1) \<and>
           get_available_moves self board1 = Some (Inr moves, board1)"
  using located_piece_returns [OF assms] by auto

section \<open>The claims\<close>



text \<open>
  Claim C2. The claim gives the rule for every pawn on the board. Off its last row the
  pawn follows it (\<open>pawn_forward_rule\<close>). A black pawn alone on row 0 is evaluated here:
  it occupies one square, the square one row ahead of it is unoccupied, and the call
  returns no result that could hold that square, since the method builds the square at
  row -1 with no check of the row and the construction raises \<^verbatim>\<open>OutOfBoundsError\<close>.
\<close>

theorem black_pawn_on_row_0_raises:
  "occurrences (Piece 0 Pawn BLACK) (lone (Piece 0 Pawn BLACK) (Square 0 3)) = [Square 0 3] \<and>
   lone (Piece 0 Pawn BLACK) (Square 0 3) (Square (- 1) 3) = None \<and>
   get_available_moves (Piece 0 Pawn BLACK) (lone (Piece 0 Pawn BLACK) (Square 0 3))
     = Some (Inl OutOfBoundsError, lone (Piece 0 Pawn BLACK) (Square 0 3))"
proof -
  have o: "occurrences (Piece 0 Pawn BLACK) (lone (Piece 0 Pawn BLACK) (Square 0 3))
      = [Square 0 3]"
    by (rule occurrences_lone) (simp add: on_board_def)
  have n: "lone (Piece 0 Pawn BLACK) (Square 0 3) (Square (- 1) 3) = None"
    by (simp add: lone_defs)
  have g: "get_available_moves (Piece 0 Pawn BLACK) (lone (Piece 0 Pawn BLACK) (Square 0 3))
     = Some (Inl OutOfBoundsError, lone (Piece 0 Pawn BLACK) (Square 0 3))"
    unfolding get_available_moves_def piece.sel piece_kind.case
      Pawn_get_available_moves_spec [OF o refl refl]
    by simp
  from o n g show ?thesis by simp
qed

text \<open>
  Claim C3. For a knight or a king that occupies the one square \<open>s\<close>,
  \<open>get_available_moves\<close> returns, in the order of the piece's list of offsets, the
  squares \<open>s\<close> + offset that are on the grid and are unoccupied or hold a piece of the
  other player; an offset contributes one square or none. The knight's offsets are the
  eight vectors (+-1, +-2) and (+-2, +-1), the king's the eight non-zero vectors with
  components in -1, 0, 1, each listed once. A knight alone on (4, 4) has the eight
  squares (2, 3), (2, 5), (3, 2), (3, 6), (5, 2), (5, 6), (6, 3), (6, 5), a knight alone
  on (0, 0) has (1, 2) and (2, 1), and a king alone on (4, 4) has its eight neighbours.
\<close>

theorem stepping_piece_moves:
  "((kind self, offsets) \<in> {(Knight, jumps), (King, King_directions)} \<and>
    occurrences self board = [s] \<longrightarrow>
      get_available_moves self board =
        Some (Inr (concat (map (\<lambda>d. if on_board (offset s d 1) \<and>
                                         free_or_foe self board (offset s d 1)
                                      then [offset s d 1] else []) offsets)), board)) \<and>
   set jumps =
     {(1, 2), (1, - 2), (- 1, 2), (- 1, - 2), (2, 1), (2, - 1), (- 2, 1), (- 2, - 1)} \<and>
   distinct jumps \<and>
   set King_directions = {- 1, 0, 1} \<times> {- 1, 0, 1} - {(0, 0)} \<and>
   distinct King_directions \<and>
   get_available_moves (Piece i Knight pl) (lone (Piece i Knight pl) (Square 4 4)) =
     Some (Inr [Square 2 3, Square 2 5, Square 3 2, Square 3 6,
                Square 5 2, Square 5 6, Square 6 3, Square 6 5],
           lone (Piece i Knight pl) (Square 4 4)) \<and>
   get_available_moves (Piece i Knight pl) (lone (Piece i Knight pl) (Square 0 0)) =
     Some (Inr [Square 1 2, Square 2 1], lone (Piece i Knight pl) (Square 0 0)) \<and>
   get_available_moves (Piece i King pl) (lone (Piece i King pl) (Square 4 4)) =
     Some (Inr [Square 3 3, Square 3 4, Square 3 5, Square 4 3,
                Square 4 5, Square 5 3, Square 5 4, Square 5 5],
           lone (Piece i King pl) (Square 4 4))"
  (is "?general \<and> ?js \<and> ?jd \<and> ?ks \<and> ?kd \<and> ?k44 \<and> ?k00 \<and> ?g44")
proof -
  have general: ?general
  proof (intro impI, elim conjE)
    assume k: "(kind self, offsets) \<in> {(Knight, jumps), (King, King_directions)}"
      and o: "occurrences self board = [s]"
    from k consider "kind self = Knight" "offsets = jumps"
      | "kind self = King" "offsets = King_directions"
      by auto
    then show "get_available_moves self board =
        Some (Inr (concat (map (\<lambda>d. if on_board (offset s d 1) \<and>
                                         free_or_foe self board (offset s d 1)
                                      then [offset s d 1] else []) offsets)), board)"
    proof cases
      case 1
      then show ?thesis
        by (simp add: get_available_moves_def stepping_moves_spec(1) [OF o])
    next
      case 2
      then show ?thesis
        by (simp add: get_available_moves_def stepping_moves_spec(2) [OF o])
    qed
  qed
  have o44: "occurrences p (lone p (Square 4 4)) = [Square 4 4]" for p
    by (rule occurrences_lone) (simp add: on_board_def)
  have o00: "occurrences p (lone p (Square 0 0)) = [Square 0 0]" for p
    by (rule occurrences_lone) (simp add: on_board_def)
  have k44: ?k44
    unfolding get_available_moves_def piece.sel piece_kind.case stepping_moves_spec(1) [OF o44]
    by (simp add: jumps_def offset_def on_board_def free_or_foe_def lone_at)
  have k00: ?k00
    unfolding get_available_moves_def piece.sel piece_kind.case stepping_moves_spec(1) [OF o00]
    by (simp add: jumps_def offset_def on_board_def free_or_foe_def lone_at)
  have g44: ?g44
    unfolding get_available_moves_def piece.sel piece_kind.case stepping_moves_spec(2) [OF o44]
    by (simp add: King_directions_def offset_def on_board_def free_or_foe_def lone_at)
  have dj: ?jd by (simp add: jumps_def)
  have dk: ?kd by (simp add: King_directions_def)
  show ?thesis
    by (intro conjI general jumps_set dj King_directions_set dk k44 k00 g44)
qed

theorem stepping_piece_moves_witness:
  "get_available_moves (Piece 0 Knight WHITE) (knight_board (Piece 0 Knight WHITE)) =
     Some (Inr [Square 2 5, Square 3 2, Square 3 6, Square 5 2, Square 5 6, Square 6 3,
                Square 6 5],
           knight_board (Piece 0 Knight WHITE))"
proof -
  let ?p = "Piece 0 Knight WHITE"
  have k: "(kind ?p, jumps) \<in> {(Knight, jumps), (King, King_directions)}" by simp
  have o: "occurrences ?p (knight_board ?p) = [Square 4 4]" by code_simp
  from stepping_piece_moves [where self = ?p and offsets = jumps
      and board = "knight_board ?p" and s = "Square 4 4"] k o
  have "get_available_moves ?p (knight_board ?p) =
        Some (Inr (concat (map (\<lambda>d. if on_board (offset (Square 4 4) d 1) \<and>
                                   free_or_foe ?p (knight_board ?p) (offset (Square 4 4) d 1)
                                then [offset (Square 4 4) d 1] else []) jumps)),
              knight_board ?p)"
    by blast
  moreover have "concat (map (\<lambda>d. if on_board (offset (Square 4 4) d 1) \<and>
                                   free_or_foe ?p (knight_board ?p) (offset (Square 4 4) d 1)
                                then [offset (Square 4 4) d 1] else []) jumps)
      = [Square 2 5, Square 3 2, Square 3 6, Square 5 2, Square 5 6, Square 6 3, Square 6 5]"
    by (simp add: jumps_def offset_def on_board_def free_or_foe_def knight_board_def lone_at
        set_piece_def)
  ultimately show ?thesis by simp
qed

text \<open>
  Claim C4. Let a queen occupy the one square \<open>s\<close> of a board, and let a rook and a
  bishop of the queen's player, neither of them on the board, each be put on \<open>s\<close> in
  her place. The three calls return; the queen's result is the rook's result followed
  by the bishop's, so the set of her squares is the union of the two sets.
\<close>

theorem queen_is_rook_and_bishop:
  assumes "kind queen = Queen" and "kind rook = Rook" and "kind bishop = Bishop"
    and "player rook = player queen" and "player bishop = player queen"
    and "occurrences queen board = [s]"
    and "occurrences rook board = []" and "occurrences bishop board = []"
  shows "\<exists>queen_moves rook_moves bishop_moves.
      get_available_moves queen board = Some (Inr queen_moves, board) \<and>
      get_available_moves rook (set_piece s (Some rook) board)
        = Some (Inr rook_moves, set_piece s (Some rook) board) \<and>
      get_available_moves bishop (set_piece s (Some bishop) board)
        = Some (Inr bishop_moves, set_piece s (Some bishop) board) \<and>
      queen_moves = rook_moves @ bishop_moves \<and>
      set queen_moves = set rook_moves \<union> set bishop_moves"
proof -
  have ob: "on_board s" using occurrences_single [OF assms(6)] by (simp add: on_board_def)
  have orook: "occurrences rook (board(s := Some rook)) = [s]"
    by (rule occurrences_placed [OF ob assms(7)])
  have obishop: "occurrences bishop (board(s := Some bishop)) = [s]"
    by (rule occurrences_placed [OF ob assms(8)])
  from sliding_moves_spec [OF unit_directions(3) assms(6)] obtain qs where
    q: "sliding_moves Queen_directions queen board = Some (Inr (concat qs), board)"
    and ql: "list_all2 (walk_segment queen board s) Queen_directions qs"
    by blast
  from sliding_moves_spec [OF unit_directions(2) orook] obtain rs where
    r: "sliding_moves Rook_directions rook (board(s := Some rook))
          = Some (Inr (concat rs), board(s := Some rook))"
    and rl: "list_all2 (walk_segment rook (board(s := Some rook)) s) Rook_directions rs"
    by blast
  from sliding_moves_spec [OF unit_directions(1) obishop] obtain bs where
    b: "sliding_moves Bishop_directions bishop (board(s := Some bishop))
          = Some (Inr (concat bs), board(s := Some bishop))"
    and bl: "list_all2 (walk_segment bishop (board(s := Some bishop)) s) Bishop_directions bs"
    by blast
  have rl': "list_all2 (walk_segment queen board s) Rook_directions rs"
    by (rule segments_cong [OF rl unit_directions(2) assms(4)])
  have bl': "list_all2 (walk_segment queen board s) Bishop_directions bs"
    by (rule segments_cong [OF bl unit_directions(1) assms(5)])
  have "list_all2 (walk_segment queen board s) Queen_directions (rs @ bs)"
    unfolding Queen_directions_split using rl' bl' by (rule list_all2_appendI)
  with ql have qs: "qs = rs @ bs" by (rule segments_unique)
  have 1: "get_available_moves queen board = Some (Inr (concat rs @ concat bs), board)"
    using assms(1) q qs by (simp add: get_available_moves_def Queen_get_available_moves_def)
  have 2: "get_available_moves rook (set_piece s (Some rook) board)
        = Some (Inr (concat rs), set_piece s (Some rook) board)"
    using assms(2) r
    by (simp add: get_available_moves_def Rook_get_available_moves_def set_piece_def)
  have 3: "get_available_moves bishop (set_piece s (Some bishop) board)
        = Some (Inr (concat bs), set_piece s (Some bishop) board)"
    using assms(3) b
    by (simp add: get_available_moves_def Bishop_get_available_moves_def set_piece_def)
  have 4: "set (concat rs @ concat bs) = set (concat rs) \<union> set (concat bs)" by simp
  from 1 2 3 4 show ?thesis by blast
qed

theorem queen_is_rook_and_bishop_witness:
  "\<exists>queen_moves rook_moves bishop_moves.
      get_available_moves (Piece 0 Queen WHITE) (example_board (Piece 0 Queen WHITE))
        = Some (Inr queen_moves, example_board (Piece 0 Queen WHITE)) \<and>
      get_available_moves (Piece 3 Rook WHITE)
          (set_piece (Square 4 4) (Some (Piece 3 Rook WHITE))
             (example_board (Piece 0 Queen WHITE)))
        = Some (Inr rook_moves,
            set_piece (Square 4 4) (Some (Piece 3 Rook WHITE))
              (example_board (Piece 0 Queen WHITE))) \<and>
      get_available_moves (Piece 4 Bishop WHITE)
          (set_piece (Square 4 4) (Some (Piece 4 Bishop WHITE))
             (example_board (Piece 0 Queen WHITE)))
        = Some (Inr bishop_moves,
            set_piece (Square 4 4) (Some (Piece 4 Bishop WHITE))
              (example_board (Piece 0 Queen WHITE))) \<and>
      queen_moves = rook_moves @ bishop_moves \<and>
      set queen_moves = set rook_moves \<union> set bishop_moves"
proof -
  let ?q = "Piece 0 Queen WHITE"
  have o: "occurrences ?q (example_board ?q) = [Square 4 4]" by code_simp
  have r: "occurrences (Piece 3 Rook WHITE) (example_board ?q) = []" by code_simp
  have b: "occurrences (Piece 4 Bishop WHITE) (example_board ?q) = []" by code_simp
  show ?thesis
    by (rule queen_is_rook_and_bishop [OF _ _ _ _ _ o r b]) simp_all
qed

text \<open>
  Claim C5. The claim has every call complete without an error. A white pawn alone on
  row 7 and a black pawn alone on row 0 are evaluated here: the pawn's method builds the
  square one row ahead with no check of the row, unlike the five other methods, and
  the construction of the square at row 8 (or row -1) raises \<^verbatim>\<open>OutOfBoundsError\<close>.
\<close>

theorem pawn_on_last_row_raises:
  "get_available_moves (Piece 0 Pawn WHITE) (lone (Piece 0 Pawn WHITE) (Square 7 4))
     = Some (Inl OutOfBoundsError, lone (Piece 0 Pawn WHITE) (Square 7 4)) \<and>
   get_available_moves (Piece 0 Pawn BLACK) (lone (Piece 0 Pawn BLACK) (Square 0 4))
     = Some (Inl OutOfBoundsError, lone (Piece 0 Pawn BLACK) (Square 0 4))"
proof -
  have w: "occurrences (Piece 0 Pawn WHITE) (lone (Piece 0 Pawn WHITE) (Square 7 4)) = [Square 7 4]"
    by (rule occurrences_lone) (simp add: on_board_def)
  have b: "occurrences (Piece 0 Pawn BLACK) (lone (Piece 0 Pawn BLACK) (Square 0 4)) = [Square 0 4]"
    by (rule occurrences_lone) (simp add: on_board_def)
  show ?thesis
    by (simp add: get_available_moves_def Pawn_get_available_moves_def
        find_piece_located [OF w] find_piece_located [OF b] Square_at_def)
qed

text \<open>
  Claim C6. A piece that no square of the grid holds is not found: \<open>find_piece\<close> raises
  \<^verbatim>\<open>PieceNotFoundError\<close>, and so do \<open>get_available_moves\<close>, for every kind of piece, and
  \<open>move_to\<close>, for every target square, since each starts with the lookup. The board is
  left as it was.
\<close>

theorem absent_piece_raises:
  assumes "\<forall>sq\<in>set all_squares. board sq \<noteq> Some p"
  shows "find_piece p board = (Inl PieceNotFoundError, board) \<and>
         get_available_moves p board = Some (Inl PieceNotFoundError, board) \<and>
         move_to p new_square board = (Inl PieceNotFoundError, board)"
proof -
  have e: "occurrences p board = []" using assms by (simp add: occurrences_absent_iff)
  have f: "find_piece p board = (Inl PieceNotFoundError, board)"
    by (rule find_piece_absent [OF e])
  have g: "get_available_moves p board = Some (Inl PieceNotFoundError, board)"
    by (cases "kind p") (simp_all add: gam_defs f)
  have m: "move_to p new_square board = (Inl PieceNotFoundError, board)"
    by (simp add: move_to_def f)
  from f g m show ?thesis by simp
qed

theorem absent_piece_raises_witness:
  "find_piece (Piece 0 Knight WHITE) (lone (Piece 1 Pawn BLACK) (Square 1 1))
     = (Inl PieceNotFoundError, lone (Piece 1 Pawn BLACK) (Square 1 1)) \<and>
   get_available_moves (Piece 0 Knight WHITE) (lone (Piece 1 Pawn BLACK) (Square 1 1))
     = Some (Inl PieceNotFoundError, lone (Piece 1 Pawn BLACK) (Square 1 1)) \<and>
   move_to (Piece 0 Knight WHITE) (Square 3 3) (lone (Piece 1 Pawn BLACK) (Square 1 1))
     = (Inl PieceNotFoundError, lone (Piece 1 Pawn BLACK) (Square 1 1))"
proof -
  have h: "\<forall>sq\<in>set all_squares. lone (Piece 1 Pawn BLACK) (Square 1 1) sq \<noteq> Some (Piece 0 Knight WHITE)"
    by (simp add: lone_defs)
  show ?thesis by (rule absent_piece_raises [OF h])
qed

text \<open>
  Claim C7. For a piece that occupies the one square \<open>s\<close> and for every target square,
  \<open>move_to\<close> is the board's \<open>move_piece\<close> from \<open>s\<close> to the target and returns normally:
  no condition on the target stands between the lookup and the move, in particular no
  membership in the result of \<open>get_available_moves\<close>. For a target other than \<open>s\<close> the
  board then holds the piece on the target and nothing on \<open>s\<close>.
\<close>

theorem move_to_unconditional:
  assumes "occurrences self board = [s]"
  shows "move_to self new_square board = move_piece s new_square board \<and>
         fst (move_to self new_square board) = Inr () \<and>
         (new_square \<noteq> s \<longrightarrow>
            snd (move_to self new_square board) new_square = Some self \<and>
            snd (move_to self new_square board) s = None)"
proof -
  have m: "move_to self new_square board = move_piece s new_square board"
    by (simp add: move_to_def find_piece_located [OF assms])
  have b: "board s = Some self" by (rule occurrences_single(1) [OF assms])
  show ?thesis unfolding m by (simp add: move_piece_def set_piece_def b)
qed

theorem move_to_unconditional_witness:
  "get_available_moves (Piece 0 Pawn WHITE) (lone (Piece 0 Pawn WHITE) (Square 1 4))
     = Some (Inr [Square 2 4, Square 3 4], lone (Piece 0 Pawn WHITE) (Square 1 4)) \<and>
   move_to (Piece 0 Pawn WHITE) (Square 5 5) (lone (Piece 0 Pawn WHITE) (Square 1 4))
     = move_piece (Square 1 4) (Square 5 5) (lone (Piece 0 Pawn WHITE) (Square 1 4)) \<and>
   snd (move_to (Piece 0 Pawn WHITE) (Square 5 5) (lone (Piece 0 Pawn WHITE) (Square 1 4)))
     (Square 5 5) = Some (Piece 0 Pawn WHITE) \<and>
   snd (move_to (Piece 0 Pawn WHITE) (Square 5 5) (lone (Piece 0 Pawn WHITE) (Square 1 4)))
     (Square 1 4) = None"
proof -
  have o: "occurrences (Piece 0 Pawn WHITE) (lone (Piece 0 Pawn WHITE) (Square 1 4)) = [Square 1 4]"
    by (rule occurrences_lone) (simp add: on_board_def)
  have g: "get_available_moves (Piece 0 Pawn WHITE) (lone (Piece 0 Pawn WHITE) (Square 1 4))
     = Some (Inr [Square 2 4, Square 3 4], lone (Piece 0 Pawn WHITE) (Square 1 4))"
    unfolding get_available_moves_def Pawn_get_available_moves_def find_piece_located [OF o]
    by (simp add: Square_at_def get_piece_def lone_defs)
  have n: "Square 5 5 \<noteq> Square 1 4" by simp
  from move_to_unconditional [OF o, of "Square 5 5"] n g show ?thesis by blast
qed

text \<open>
  Claim C8. For every kind of piece and every board, \<open>get_available_moves\<close> ends, with
  a result or with an error, and the board it leaves is the board it was given: every
  square holds the occupant it held, with the player it had. A piece has no state but
  its player, and the board holds the pieces themselves, so the piece is as it was.
\<close>

theorem get_available_moves_read_only:
  "\<exists>r board'. get_available_moves self board = Some (r, board') \<and> board' = board"
  using get_available_moves_frame [of self board] by simp

text \<open>
  Claim C9. The claim has two calls in a row yield two identical sequences for every
  piece on the board. Every piece but a pawn on its last row does so
  (\<open>located_piece_twice\<close>). A white pawn alone on row 7 is evaluated here: it occupies one
  square, the first call raises \<^verbatim>\<open>OutOfBoundsError\<close>, and so does the second call on the
  board that the first has left; neither yields a sequence.
\<close>

theorem last_row_pawn_twice_raises:
  "occurrences (Piece 0 Pawn WHITE) (lone (Piece 0 Pawn WHITE) (Square 7 4)) = [Square 7 4] \<and>
   get_available_moves (Piece 0 Pawn WHITE) (lone (Piece 0 Pawn WHITE) (Square 7 4))
     = Some (Inl OutOfBoundsError, lone (Piece 0 Pawn WHITE) (Square 7 4)) \<and>
   get_available_moves (Piece 0 Pawn WHITE)
     (snd (the (get_available_moves (Piece 0 Pawn WHITE)
                  (lone (Piece 0 Pawn WHITE) (Square 7 4)))))
     = Some (Inl OutOfBoundsError, lone (Piece 0 Pawn WHITE) (Square 7 4))"
proof -
  have o: "occurrences (Piece 0 Pawn WHITE) (lone (Piece 0 Pawn WHITE) (Square 7 4))
      = [Square 7 4]"
    by (rule occurrences_lone) (simp add: on_board_def)
  have g: "get_available_moves (Piece 0 Pawn WHITE) (lone (Piece 0 Pawn WHITE) (Square 7 4))
     = Some (Inl OutOfBoundsError, lone (Piece 0 Pawn WHITE) (Square 7 4))"
    unfolding get_available_moves_def piece.sel piece_kind.case
      Pawn_get_available_moves_spec [OF o refl refl]
    by simp
  from o g show ?thesis by simp
qed

text \<open>
  Claim C10. For a piece of any kind that occupies the one square \<open>s\<close>,
  \<open>get_available_moves\<close> ends, and a result it returns does not contain \<open>s\<close>.
\<close>

theorem own_square_not_offered:
  assumes "occurrences self board = [s]"
  shows "\<exists>r. get_available_moves self board = Some (r, board) \<and>
           (\<forall>moves. r = Inr moves \<longrightarrow> s \<notin> set moves)"
proof (cases "kind self")
  case Pawn
  have "\<forall>t\<in>set moves. row t \<noteq> row s"
    if "Pawn_get_available_moves self board = (Inr moves, board)" for moves
    using that unfolding Pawn_get_available_moves_spec [OF assms refl refl]
    by (auto split: if_splits)
  then have "s \<notin> set moves"
    if "Pawn_get_available_moves self board = (Inr moves, board)" for moves
    using that by blast
  moreover from get_available_moves_frame [of self board] Pawn
  obtain r where "Pawn_get_available_moves self board = (r, board)"
    by (auto simp: get_available_moves_def)
  ultimately show ?thesis using Pawn by (auto simp: get_available_moves_def)
next
  case Knight
  have "(0, 0) \<notin> set jumps" by (simp add: jumps_def)
  from stepping_not_self [OF this] Knight show ?thesis
    by (simp add: get_available_moves_def stepping_moves_spec(1) [OF assms])
next
  case King
  have "(0, 0) \<notin> set King_directions" by (simp add: King_directions_def)
  from stepping_not_self [OF this] King show ?thesis
    by (simp add: get_available_moves_def stepping_moves_spec(2) [OF assms])
next
  case Bishop
  from sliding_moves_spec [OF unit_directions(1) assms] obtain segments where
    "sliding_moves Bishop_directions self board = Some (Inr (concat segments), board)"
    and "list_all2 (walk_segment self board s) Bishop_directions segments"
    by blast
  with sliding_not_self [OF unit_directions(1)] Bishop show ?thesis
    by (simp add: get_available_moves_def Bishop_get_available_moves_def)
next
  case Rook
  from sliding_moves_spec [OF unit_directions(2) assms] obtain segments where
    "sliding_moves Rook_directions self board = Some (Inr (concat segments), board)"
    and "list_all2 (walk_segment self board s) Rook_directions segments"
    by blast
  with sliding_not_self [OF unit_directions(2)] Rook show ?thesis
    by (simp add: get_available_moves_def Rook_get_available_moves_def)
next
  case Queen
  from sliding_moves_spec [OF unit_directions(3) assms] obtain segments where
    "sliding_moves Queen_directions self board = Some (Inr (concat segments), board)"
    and "list_all2 (walk_segment self board s) Queen_directions segments"
    by blast
  with sliding_not_self [OF unit_directions(3)] Queen show ?thesis
    by (simp add: get_available_moves_def Queen_get_available_moves_def)
qed

theorem own_square_not_offered_witness:
  "\<exists>r. get_available_moves (Piece 0 Queen WHITE) (example_board (Piece 0 Queen WHITE))
          = Some (r, example_board (Piece 0 Queen WHITE)) \<and>
        (\<forall>moves. r = Inr moves \<longrightarrow> Square 4 4 \<notin> set moves)"
proof -
  have o: "occurrences (Piece 0 Queen WHITE) (example_board (Piece 0 Queen WHITE))
      = [Square 4 4]"
    by code_simp
  show ?thesis by (rule own_square_not_offered [OF o])
qed

end
